theory Spec2Isabelle
  imports Main
begin

section \<open>Tic Tac Toe with time travel (src/App.js)\<close>

subsection \<open>JavaScript values held by a board\<close>

text \<open>
  A square of the board holds \<^verbatim>\<open>null\<close>, \<^verbatim>\<open>"X"\<close> or \<^verbatim>\<open>"O"\<close>; a read past the end of
  an array yields \<^verbatim>\<open>undefined\<close>. Strings are kept as strings, so that \<^verbatim>\<open>===\<close> is
  equality of values and string concatenation is list append.
\<close>

datatype jsval = Null | Undefined | Str string

text \<open>Truthiness, as tested by \<^verbatim>\<open>if (v)\<close>, \<^verbatim>\<open>v || w\<close>, \<^verbatim>\<open>v && w\<close> and \<^verbatim>\<open>v ? a : b\<close>.\<close>

fun truthy :: "jsval \<Rightarrow> bool" where
  "truthy Null = False"
| "truthy Undefined = False"
| "truthy (Str s) = (s \<noteq> [])"

text \<open>\<^verbatim>\<open>xs[i]\<close>: out of range the read gives \<^verbatim>\<open>undefined\<close>.\<close>

definition js_get :: "jsval list \<Rightarrow> nat \<Rightarrow> jsval" where
  "js_get xs i = (if i < length xs then xs ! i else Undefined)"

text \<open>\<^verbatim>\<open>xs[i] = v\<close>: out of range the array grows, the holes reading \<^verbatim>\<open>undefined\<close>.\<close>

definition js_set :: "jsval list \<Rightarrow> nat \<Rightarrow> jsval \<Rightarrow> jsval list" where
  "js_set xs i v =
     (if i < length xs then xs[i := v]
      else xs @ replicate (i - length xs) Undefined @ [v])"

text \<open>\<^verbatim>\<open>"..." + v\<close>: the string a value contributes to a concatenation.\<close>

fun to_string :: "jsval \<Rightarrow> string" where
  "to_string Null = ''null''"
| "to_string Undefined = ''undefined''"
| "to_string (Str s) = s"

subsection \<open>calculateWinner\<close>

definition lines :: "(nat \<times> nat \<times> nat) list" where
  "lines =
     [(0, 1, 2),
      (3, 4, 5),
      (6, 7, 8),
      (0, 3, 6),
      (1, 4, 7),
      (2, 5, 8),
      (0, 4, 8),
      (2, 4, 6)]"

text \<open>
  The \<^verbatim>\<open>for\<close> loop over \<^verbatim>\<open>lines\<close>, from the entry not yet visited: the first entry
  whose test succeeds ends the loop with \<^verbatim>\<open>squares[a]\<close>; falling off the end is the
  final \<^verbatim>\<open>return null\<close>.
\<close>

fun scan_lines :: "jsval list \<Rightarrow> (nat \<times> nat \<times> nat) list \<Rightarrow> jsval" where
  "scan_lines squares [] = Null"
| "scan_lines squares ((a, b, c) # rest) =
     (if truthy (js_get squares a)
         \<and> js_get squares a = js_get squares b
         \<and> js_get squares a = js_get squares c
      then js_get squares a
      else scan_lines squares rest)"

definition calculateWinner :: "jsval list \<Rightarrow> jsval" where
  "calculateWinner squares = scan_lines squares lines"

subsection \<open>Board: handleClick and the status line\<close>

text \<open>
  \<^verbatim>\<open>handleClick(i)\<close> of a Board rendered with the props \<^verbatim>\<open>xIsNext\<close>, \<^verbatim>\<open>squares\<close> and
  \<^verbatim>\<open>onPlay\<close>. The callback acts on the state of whoever supplied it, so it is a state
  transformer taking the board it is called with; where the handler returns before
  the call, the state comes back as it was. On values \<^verbatim>\<open>squares.slice()\<close> is the
  same list; the copy it makes is explicit in \<open>handleClick_store\<close> below.
\<close>

definition handleClick ::
  "bool \<Rightarrow> jsval list \<Rightarrow> (jsval list \<Rightarrow> 's \<Rightarrow> 's) \<Rightarrow> nat \<Rightarrow> 's \<Rightarrow> 's" where
  "handleClick xIsNext squares onPlay i st =
     (if truthy (js_get squares i) \<or> truthy (calculateWinner squares) then st
      else
        let nextSquares = squares;
            nextSquares = js_set nextSquares i (Str (if xIsNext then ''X'' else ''O''))
        in onPlay nextSquares st)"

text \<open>The status line computed when a Board renders.\<close>

definition status :: "bool \<Rightarrow> jsval list \<Rightarrow> string" where
  "status xIsNext squares =
     (let winner = calculateWinner squares
      in if truthy winner then ''Winner: '' @ to_string winner
         else ''Next player: '' @ (if xIsNext then ''X'' else ''O''))"

subsection \<open>Arrays as objects: an explicit store\<close>

text \<open>
  Boards are arrays, held by reference. The store lists the arrays allocated so far,
  a reference being a position in it; a new array goes at the end. \<^verbatim>\<open>slice()\<close>
  allocates a copy, and an indexed assignment changes the one array it names.
\<close>

type_synonym ref = nat
type_synonym store = "jsval list list"

definition slice_at :: "store \<Rightarrow> ref \<Rightarrow> store \<times> ref" where
  "slice_at s r = (s @ [s ! r], length s)"

definition set_at :: "store \<Rightarrow> ref \<Rightarrow> nat \<Rightarrow> jsval \<Rightarrow> store" where
  "set_at s r i v = s[r := js_set (s ! r) i v]"

definition handleClick_store ::
  "bool \<Rightarrow> ref \<Rightarrow> (ref \<Rightarrow> store \<times> 's \<Rightarrow> store \<times> 's) \<Rightarrow> nat \<Rightarrow> store \<times> 's \<Rightarrow> store \<times> 's"
  where
  "handleClick_store xIsNext squares onPlay i = (\<lambda>(s, st).
     if truthy (js_get (s ! squares) i) \<or> truthy (calculateWinner (s ! squares)) then (s, st)
     else
       let (s, nextSquares) = slice_at s squares;
           s = set_at s nextSquares i (Str (if xIsNext then ''X'' else ''O''))
       in onPlay nextSquares (s, st))"

subsection \<open>Game: history and current move\<close>

text \<open>
  The two pieces of state of the Game component. The entries of \<^verbatim>\<open>history\<close> are boards
  when the state is read as values and references to arrays when the store is
  explicit; \<^verbatim>\<open>handlePlay\<close> and \<^verbatim>\<open>jumpTo\<close> never look inside an entry. \<^verbatim>\<open>currentMove\<close> is
  only ever given an index of \<^verbatim>\<open>history.map\<close> or \<^verbatim>\<open>nextHistory.length - 1\<close> of a
  non-empty array, so it is a natural number.
\<close>

record 'a game =
  history :: "'a list"
  currentMove :: nat

text \<open>\<^verbatim>\<open>useState([Array(9).fill(null)])\<close> and \<^verbatim>\<open>useState(0)\<close>.\<close>

definition initial :: "jsval list game" where
  "initial = \<lparr>history = [replicate 9 Null], currentMove = 0\<rparr>"

definition xIsNext :: "'a game \<Rightarrow> bool" where
  "xIsNext g = (currentMove g mod 2 = 0)"

text \<open>\<^verbatim>\<open>history[currentMove]\<close>; \<open>None\<close> is the \<^verbatim>\<open>undefined\<close> of a read out of range.\<close>

definition currentSquares :: "'a game \<Rightarrow> 'a option" where
  "currentSquares g =
     (if currentMove g < length (history g) then Some (history g ! currentMove g) else None)"

text \<open>\<^verbatim>\<open>history.slice(0, currentMove + 1)\<close> stops at the end of the array, as \<open>take\<close> does.\<close>

definition handlePlay :: "'a \<Rightarrow> 'a game \<Rightarrow> 'a game" where
  "handlePlay nextSquares g =
     (let nextHistory = take (currentMove g + 1) (history g) @ [nextSquares]
      in \<lparr>history = nextHistory, currentMove = length nextHistory - 1\<rparr>)"

definition jumpTo :: "nat \<Rightarrow> 'a game \<Rightarrow> 'a game" where
  "jumpTo nextMove g = g\<lparr>currentMove := nextMove\<rparr>"

text \<open>The decimal numeral that a template literal prints for an array index.\<close>

fun decimal :: "nat \<Rightarrow> string" where
  "decimal n =
     (if n < 10 then [''0123456789'' ! n]
      else decimal (n div 10) @ [''0123456789'' ! (n mod 10)])"

declare decimal.simps [simp del]

definition description :: "nat \<Rightarrow> string" where
  "description move = (if move > 0 then ''Go to move #'' @ decimal move else ''Go to game start'')"

text \<open>
  \<^verbatim>\<open>history.map((squares, move) => ...)\<close>: one list item per entry of the history, with
  the index its button jumps to and the label of the button.
\<close>

definition moves :: "'a game \<Rightarrow> (nat \<times> string) list" where
  "moves g = map (\<lambda>move. (move, description move)) [0..<length (history g)]"

subsection \<open>Interactions\<close>

text \<open>
  What can happen to a Game: \<open>Commit\<close> is a call of \<^verbatim>\<open>handlePlay\<close> with any board,
  \<open>Click i\<close> a click on square \<open>i\<close> of the rendered Board, \<open>Jump k\<close> a click on the
  button of list item \<open>k\<close>. The result is \<open>None\<close> where the page has no such control:
  the Board has the nine squares 0 to 8, the list has one button per entry of the
  history, and a Board whose \<^verbatim>\<open>squares\<close> is \<^verbatim>\<open>undefined\<close> fails to render.
\<close>

datatype event = Commit "jsval list" | Click nat | Jump nat

fun step :: "event \<Rightarrow> jsval list game \<Rightarrow> jsval list game option" where
  "step (Commit nextSquares) g = Some (handlePlay nextSquares g)"
| "step (Click i) g =
     (if i < 9 then
        (case currentSquares g of
           None \<Rightarrow> None
         | Some squares \<Rightarrow> Some (handleClick (xIsNext g) squares handlePlay i g))
      else None)"
| "step (Jump k) g = (if k < length (history g) then Some (jumpTo k g) else None)"

fun run :: "event list \<Rightarrow> jsval list game \<Rightarrow> jsval list game option" where
  "run [] g = Some g"
| "run (e # es) g = (case step e g of None \<Rightarrow> None | Some g' \<Rightarrow> run es g')"

fun is_Commit :: "event \<Rightarrow> bool" where
  "is_Commit (Commit nextSquares) = True"
| "is_Commit (Click i) = False"
| "is_Commit (Jump k) = False"

subsection \<open>The Game over the store\<close>

text \<open>\<^verbatim>\<open>handlePlay\<close> as the callback: it stores the reference and writes to no array.\<close>

definition handlePlay_store :: "ref \<Rightarrow> store \<times> ref game \<Rightarrow> store \<times> ref game" where
  "handlePlay_store nextSquares = (\<lambda>(s, g). (s, handlePlay nextSquares g))"

text \<open>The boards a state of references stands for.\<close>

definition boards :: "store \<Rightarrow> ref game \<Rightarrow> jsval list game" where
  "boards s g = \<lparr>history = map (\<lambda>r. s ! r) (history g), currentMove = currentMove g\<rparr>"

subsection \<open>Vocabulary of the specification\<close>

text \<open>A Snapshot: nine cells, each empty, \<^verbatim>\<open>"X"\<close> or \<^verbatim>\<open>"O"\<close>.\<close>

definition is_cell :: "jsval \<Rightarrow> bool" where
  "is_cell v = (v = Null \<or> v = Str ''X'' \<or> v = Str ''O'')"

definition Snapshot :: "jsval list \<Rightarrow> bool" where
  "Snapshot squares = (length squares = 9 \<and> list_all is_cell squares)"

text \<open>A triple of cells that are all non-empty and all equal.\<close>

definition filled :: "jsval list \<Rightarrow> nat \<Rightarrow> nat \<Rightarrow> nat \<Rightarrow> bool" where
  "filled squares a b c =
     (squares ! a \<noteq> Null \<and> squares ! a = squares ! b \<and> squares ! a = squares ! c)"

text \<open>Some one of the eight winning triples is filled.\<close>

definition some_triple_filled :: "jsval list \<Rightarrow> bool" where
  "some_triple_filled squares =
     (filled squares 0 1 2 \<or> filled squares 3 4 5 \<or> filled squares 6 7 8 \<or>
      filled squares 0 3 6 \<or> filled squares 1 4 7 \<or> filled squares 2 5 8 \<or>
      filled squares 0 4 8 \<or> filled squares 2 4 6)"

text \<open>The \<open>k\<close>-th winning triple, in the order of the scan, is filled.\<close>

definition filled_line :: "jsval list \<Rightarrow> nat \<Rightarrow> bool" where
  "filled_line squares k = (case lines ! k of (a, b, c) \<Rightarrow> filled squares a b c)"

text \<open>How many cells hold a given mark, and how many are non-empty.\<close>

definition marks :: "string \<Rightarrow> jsval list \<Rightarrow> nat" where
  "marks m squares = length (filter (\<lambda>v. v = Str m) squares)"

definition non_empty :: "jsval list \<Rightarrow> nat" where
  "non_empty squares = length (filter (\<lambda>v. v \<noteq> Null) squares)"

text \<open>The cells in which two boards differ.\<close>

definition changed_cells :: "jsval list \<Rightarrow> jsval list \<Rightarrow> nat list" where
  "changed_cells old new = filter (\<lambda>j. new ! j \<noteq> old ! j) [0..<9]"

text \<open>
  A history of alternating moves: entry \<open>n\<close> is a board with \<open>(n + 1) div 2\<close> cells
  \<^verbatim>\<open>"X"\<close> and \<open>n div 2\<close> cells \<^verbatim>\<open>"O"\<close>, and each entry is its predecessor with one empty
  cell set to the mark whose turn it was.
\<close>

definition alternating :: "jsval list list \<Rightarrow> bool" where
  "alternating h =
     ((\<forall>n<length h. Snapshot (h ! n)
           \<and> marks ''X'' (h ! n) = (n + 1) div 2 \<and> marks ''O'' (h ! n) = n div 2)
      \<and> (\<forall>n. Suc n < length h \<longrightarrow>
           (\<exists>i<9. h ! n ! i = Null
               \<and> h ! Suc n = (h ! n)[i := Str (if even n then ''X'' else ''O'')])))"

section \<open>Properties of calculateWinner\<close>

lemma truthy_cell: "is_cell v \<Longrightarrow> truthy v = (v \<noteq> Null)"
  by (auto simp: is_cell_def)

lemma Snapshot_get: "Snapshot squares \<Longrightarrow> i < 9 \<Longrightarrow> js_get squares i = squares ! i"
  by (simp add: Snapshot_def js_get_def)

lemma Snapshot_cell: "Snapshot squares \<Longrightarrow> i < 9 \<Longrightarrow> is_cell (squares ! i)"
  by (simp add: Snapshot_def list_all_length)

lemma lines_in_range: "(a, b, c) \<in> set lines \<Longrightarrow> a < 9 \<and> b < 9 \<and> c < 9"
  by (auto simp: lines_def)

lemma scan_lines_result:
  "scan_lines squares ls = Null \<or> truthy (scan_lines squares ls)"
  by (induction squares ls rule: scan_lines.induct) auto

lemma scan_lines_truthy_iff:
  "truthy (scan_lines squares ls) \<longleftrightarrow>
     (\<exists>(a, b, c) \<in> set ls. truthy (js_get squares a)
         \<and> js_get squares a = js_get squares b \<and> js_get squares a = js_get squares c)"
  by (induction squares ls rule: scan_lines.induct) auto

lemma scan_lines_source:
  "truthy (scan_lines squares ls) \<Longrightarrow>
     \<exists>(a, b, c) \<in> set ls. scan_lines squares ls = js_get squares a
         \<and> js_get squares a = js_get squares b \<and> js_get squares a = js_get squares c"
  by (induction squares ls rule: scan_lines.induct) (auto split: if_splits)

lemma calculateWinner_result:
  "calculateWinner squares = Null \<or> truthy (calculateWinner squares)"
  by (simp add: calculateWinner_def scan_lines_result)

lemma calculateWinner_truthy_Snapshot:
  assumes "Snapshot squares"
  shows "truthy (calculateWinner squares) \<longleftrightarrow> some_triple_filled squares"
proof -
  have g: "\<And>i. i < 9 \<Longrightarrow> js_get squares i = squares ! i"
    using assms by (rule Snapshot_get)
  have t: "\<And>i. i < 9 \<Longrightarrow> truthy (squares ! i) = (squares ! i \<noteq> Null)"
    using assms by (simp add: Snapshot_cell truthy_cell)
  show ?thesis
    unfolding calculateWinner_def scan_lines_truthy_iff
    by (simp add: lines_def some_triple_filled_def filled_def g t)
qed

lemma calculateWinner_is_cell:
  assumes "Snapshot squares"
  shows "is_cell (calculateWinner squares)"
proof (cases "truthy (calculateWinner squares)")
  case True
  then have "\<exists>(a, b, c) \<in> set lines. calculateWinner squares = js_get squares a
         \<and> js_get squares a = js_get squares b \<and> js_get squares a = js_get squares c"
    unfolding calculateWinner_def by (rule scan_lines_source)
  then obtain a b c where "(a, b, c) \<in> set lines" "calculateWinner squares = js_get squares a"
    by blast
  then have "a < 9" "calculateWinner squares = js_get squares a"
    by (simp_all add: lines_in_range)
  with assms show ?thesis
    by (simp add: Snapshot_get Snapshot_cell)
next
  case False
  with calculateWinner_result [of squares] show ?thesis
    by (auto simp: is_cell_def)
qed

text \<open>
  C1. On every board of nine cells, each empty, \<^verbatim>\<open>"X"\<close> or \<^verbatim>\<open>"O"\<close>, calculateWinner
  returns a mark exactly when one of the eight winning triples has three non-empty,
  equal cells, and returns \<^verbatim>\<open>null\<close> when none has.
\<close>

theorem calculateWinner_iff_some_triple_filled:
  assumes "Snapshot squares"
  shows "((calculateWinner squares = Str ''X'' \<or> calculateWinner squares = Str ''O'')
            \<longleftrightarrow> some_triple_filled squares)
         \<and> (\<not> some_triple_filled squares \<longrightarrow> calculateWinner squares = Null)"
proof -
  have c: "is_cell (calculateWinner squares)"
    using assms by (rule calculateWinner_is_cell)
  have "truthy (calculateWinner squares) \<longleftrightarrow> some_triple_filled squares"
    using assms by (rule calculateWinner_truthy_Snapshot)
  with c show ?thesis
    by (auto simp: is_cell_def)
qed

theorem calculateWinner_iff_some_triple_filled_witness:
  "Snapshot [Str ''O'', Null, Str ''X'', Null, Str ''X'', Str ''O'', Str ''X'', Null, Null]
   \<and> some_triple_filled
       [Str ''O'', Null, Str ''X'', Null, Str ''X'', Str ''O'', Str ''X'', Null, Null]
   \<and> calculateWinner
       [Str ''O'', Null, Str ''X'', Null, Str ''X'', Str ''O'', Str ''X'', Null, Null]
     = Str ''X''
   \<and> Snapshot (replicate 9 Null)
   \<and> \<not> some_triple_filled (replicate 9 Null)
   \<and> calculateWinner (replicate 9 Null) = Null"
proof -
  let ?b = "[Str ''O'', Null, Str ''X'', Null, Str ''X'', Str ''O'', Str ''X'', Null, Null]"
  have s1: "Snapshot ?b"
    by (simp add: Snapshot_def is_cell_def)
  have f1: "some_triple_filled ?b"
    by (simp add: some_triple_filled_def filled_def)
  have w1: "calculateWinner ?b = Str ''X''"
    by (simp add: calculateWinner_def lines_def js_get_def)
  have s2: "Snapshot (replicate 9 Null)"
    by (simp add: Snapshot_def is_cell_def list_all_length)
  have f2: "\<not> some_triple_filled (replicate 9 Null)"
    by (simp add: some_triple_filled_def filled_def)
  have w2: "calculateWinner (replicate 9 Null) = Null"
    using calculateWinner_iff_some_triple_filled [OF s2] f2 by blast
  from s1 f1 w1 s2 f2 w2 show ?thesis
    using calculateWinner_iff_some_triple_filled [OF s1] by blast
qed

lemma scan_lines_first:
  "k < length ls \<Longrightarrow>
   (case ls ! k of (a, b, c) \<Rightarrow> truthy (js_get squares a)
       \<and> js_get squares a = js_get squares b \<and> js_get squares a = js_get squares c) \<Longrightarrow>
   (\<forall>j<k. case ls ! j of (a, b, c) \<Rightarrow> \<not> (truthy (js_get squares a)
       \<and> js_get squares a = js_get squares b \<and> js_get squares a = js_get squares c)) \<Longrightarrow>
   scan_lines squares ls = js_get squares (fst (ls ! k))"
proof (induction squares ls arbitrary: k rule: scan_lines.induct)
  case (1 squares)
  then show ?case by simp
next
  case (2 squares a b c rest)
  show ?case
  proof (cases k)
    case 0
    with "2.prems"(2) show ?thesis by auto
  next
    case (Suc k')
    from "2.prems"(3) Suc have miss: "\<not> (truthy (js_get squares a)
       \<and> js_get squares a = js_get squares b \<and> js_get squares a = js_get squares c)"
      by fastforce
    have "scan_lines squares rest = js_get squares (fst (rest ! k'))"
    proof (rule "2.IH")
      show "\<not> (truthy (js_get squares a)
       \<and> js_get squares a = js_get squares b \<and> js_get squares a = js_get squares c)"
        by (rule miss)
      show "k' < length rest" using "2.prems"(1) Suc by simp
      show "case rest ! k' of (a, b, c) \<Rightarrow> truthy (js_get squares a)
       \<and> js_get squares a = js_get squares b \<and> js_get squares a = js_get squares c"
        using "2.prems"(2) Suc by simp
      show "\<forall>j<k'. case rest ! j of (a, b, c) \<Rightarrow> \<not> (truthy (js_get squares a)
       \<and> js_get squares a = js_get squares b \<and> js_get squares a = js_get squares c)"
        using "2.prems"(3) Suc by auto
    qed
    with miss Suc show ?thesis by auto
  qed
qed

lemma filled_line_test:
  assumes "Snapshot squares" "k < length lines"
  shows "filled_line squares k \<longleftrightarrow>
    (case lines ! k of (a, b, c) \<Rightarrow> truthy (js_get squares a)
       \<and> js_get squares a = js_get squares b \<and> js_get squares a = js_get squares c)"
proof -
  obtain a b c where l: "lines ! k = (a, b, c)"
    by (cases "lines ! k") auto
  with assms(2) have "(a, b, c) \<in> set lines"
    by (metis nth_mem)
  then have r: "a < 9 \<and> b < 9 \<and> c < 9"
    by (rule lines_in_range)
  with assms(1) show ?thesis
    by (simp add: filled_line_def filled_def l Snapshot_get Snapshot_cell truthy_cell)
qed

text \<open>
  C9. When several winning triples are filled, possibly with different marks,
  calculateWinner returns the mark of the first filled triple in the order of the
  scan: the rows from the top, the columns from the left, the diagonal 0-4-8, the
  diagonal 2-4-6.
\<close>

theorem calculateWinner_first_filled_line:
  assumes "Snapshot squares" and "k < length lines" and "filled_line squares k"
    and "\<forall>j<k. \<not> filled_line squares j"
  shows "calculateWinner squares = squares ! fst (lines ! k)
     \<and> lines = [(0, 1, 2), (3, 4, 5), (6, 7, 8), (0, 3, 6), (1, 4, 7), (2, 5, 8),
                (0, 4, 8), (2, 4, 6)]"
proof -
  have "calculateWinner squares = js_get squares (fst (lines ! k))"
    unfolding calculateWinner_def
  proof (rule scan_lines_first)
    show "k < length lines" by (rule assms(2))
    show "case lines ! k of (a, b, c) \<Rightarrow> truthy (js_get squares a)
       \<and> js_get squares a = js_get squares b \<and> js_get squares a = js_get squares c"
      using assms(1,2,3) by (simp add: filled_line_test)
    show "\<forall>j<k. case lines ! j of (a, b, c) \<Rightarrow> \<not> (truthy (js_get squares a)
       \<and> js_get squares a = js_get squares b \<and> js_get squares a = js_get squares c)"
    proof (intro allI impI)
      fix j assume "j < k"
      with assms(2) have "j < length lines" by simp
      with assms(1) assms(4) \<open>j < k\<close> show "case lines ! j of (a, b, c) \<Rightarrow> \<not> (truthy (js_get squares a)
       \<and> js_get squares a = js_get squares b \<and> js_get squares a = js_get squares c)"
        using filled_line_test [of squares j] by (auto split: prod.splits)
    qed
  qed
  moreover obtain a b c where l: "lines ! k = (a, b, c)"
    by (cases "lines ! k") auto
  moreover from l assms(2) have "(a, b, c) \<in> set lines"
    by (metis nth_mem)
  then have "a < 9" using lines_in_range by blast
  ultimately show ?thesis
    using assms(1) by (simp add: Snapshot_get lines_def)
qed

theorem calculateWinner_first_filled_line_witness:
  "Snapshot [Str ''O'', Str ''O'', Null, Str ''X'', Str ''X'', Str ''X'', Str ''O'', Str ''O'', Str ''O'']
   \<and> \<not> filled_line [Str ''O'', Str ''O'', Null, Str ''X'', Str ''X'', Str ''X'', Str ''O'', Str ''O'', Str ''O''] 0
   \<and> filled_line [Str ''O'', Str ''O'', Null, Str ''X'', Str ''X'', Str ''X'', Str ''O'', Str ''O'', Str ''O''] 1
   \<and> filled_line [Str ''O'', Str ''O'', Null, Str ''X'', Str ''X'', Str ''X'', Str ''O'', Str ''O'', Str ''O''] 2
   \<and> calculateWinner [Str ''O'', Str ''O'', Null, Str ''X'', Str ''X'', Str ''X'', Str ''O'', Str ''O'', Str ''O'']
       = Str ''X''"
proof -
  let ?b = "[Str ''O'', Str ''O'', Null, Str ''X'', Str ''X'', Str ''X'', Str ''O'', Str ''O'', Str ''O'']"
  have s: "Snapshot ?b"
    by (simp add: Snapshot_def is_cell_def)
  have k: "(1::nat) < length lines"
    by (simp add: lines_def)
  have f0: "\<not> filled_line ?b 0"
    by (simp add: filled_line_def filled_def lines_def)
  have f1: "filled_line ?b 1"
    by (simp add: filled_line_def filled_def lines_def)
  have f2: "filled_line ?b 2"
    by (simp add: filled_line_def filled_def lines_def)
  have n: "\<forall>j<1::nat. \<not> filled_line ?b j"
    using f0 by simp
  have "calculateWinner ?b = ?b ! fst (lines ! 1)"
    using calculateWinner_first_filled_line [OF s k f1 n] by blast
  then have "calculateWinner ?b = Str ''X''"
    by (simp add: lines_def)
  with s f0 f1 f2 show ?thesis by blast
qed

section \<open>Properties of the Game state\<close>

lemma handlePlay_history:
  "history (handlePlay s g) = take (currentMove g + 1) (history g) @ [s]"
  by (simp add: handlePlay_def Let_def)

lemma handlePlay_currentMove:
  "currentMove (handlePlay s g) = min (currentMove g + 1) (length (history g))"
  by (simp add: handlePlay_def Let_def)

lemma jumpTo_simps:
  "history (jumpTo k g) = history g" "currentMove (jumpTo k g) = k"
  by (simp_all add: jumpTo_def)

text \<open>
  C2. handlePlay replaces the history by its entries 0 to \<open>currentMove\<close> followed by
  the new board, so that afterwards the history has \<open>currentMove + 1\<close> entries; from a
  state whose current move is an index of the history, the current move becomes
  \<open>currentMove + 1\<close>. After a jump to an entry \<open>k\<close> of the history and a handlePlay of
  \<open>s\<close>, the history has \<open>k + 2\<close> entries, entry \<open>k + 1\<close> is \<open>s\<close> and the entries up to
  \<open>k\<close> are the old ones, whatever the length of the history was.
\<close>

theorem handlePlay_truncates_then_appends:
  "history (handlePlay s g) = take (currentMove g + 1) (history g) @ [s]
   \<and> length (history (handlePlay s g)) = currentMove (handlePlay s g) + 1
   \<and> (currentMove g < length (history g) \<longrightarrow>
        currentMove (handlePlay s g) = currentMove g + 1)
   \<and> (k < length (history g) \<longrightarrow>
        length (history (handlePlay s (jumpTo k g))) = k + 2
        \<and> history (handlePlay s (jumpTo k g)) ! (k + 1) = s
        \<and> take (k + 1) (history (handlePlay s (jumpTo k g))) = take (k + 1) (history g))"
  by (auto simp: handlePlay_history handlePlay_currentMove jumpTo_simps nth_append min_def)

theorem handlePlay_truncates_then_appends_witness:
  "currentMove \<lparr>history = [[Null], [Str ''X''], [Str ''O''], [Str ''A'']], currentMove = 3\<rparr>
     < length (history \<lparr>history = [[Null], [Str ''X''], [Str ''O''], [Str ''A'']], currentMove = 3\<rparr>)
   \<and> 1 < length (history \<lparr>history = [[Null], [Str ''X''], [Str ''O''], [Str ''A'']], currentMove = 3\<rparr>)
   \<and> handlePlay [Str ''B'']
     (jumpTo 1 \<lparr>history = [[Null], [Str ''X''], [Str ''O''], [Str ''A'']], currentMove = 3\<rparr>)
   = \<lparr>history = [[Null], [Str ''X''], [Str ''B'']], currentMove = 2\<rparr>
   \<and> length (history (handlePlay [Str ''B'']
        (jumpTo 1 \<lparr>history = [[Null], [Str ''X''], [Str ''O''], [Str ''A'']], currentMove = 3\<rparr>)))
      = 1 + 2"
  using handlePlay_truncates_then_appends
    [of "[Str ''B'']" "\<lparr>history = [[Null], [Str ''X''], [Str ''O''], [Str ''A'']], currentMove = 3\<rparr>" 1]
  by (simp add: handlePlay_def jumpTo_def)

text \<open>
  C5. A jump to an index of the history sets the current move to that index and leaves
  the history as it is; the list of moves rendered afterwards is the one rendered
  before, with one item per entry of the history.
\<close>

theorem jumpTo_leaves_history:
  assumes "index < length (history g)"
  shows "currentMove (jumpTo index g) = index
     \<and> history (jumpTo index g) = history g
     \<and> moves (jumpTo index g) = moves g
     \<and> length (moves (jumpTo index g)) = length (history g)
     \<and> currentSquares (jumpTo index g) = Some (history g ! index)"
  using assms by (simp add: jumpTo_def moves_def currentSquares_def)

theorem jumpTo_leaves_history_witness:
  "(0::nat) < length (history \<lparr>history = [replicate 9 Null, (replicate 9 Null)[4 := Str ''X'']], currentMove = 1\<rparr>)
   \<and> jumpTo 0 \<lparr>history = [replicate 9 Null, (replicate 9 Null)[4 := Str ''X'']], currentMove = 1\<rparr>
     = \<lparr>history = [replicate 9 Null, (replicate 9 Null)[4 := Str ''X'']], currentMove = 0\<rparr>
   \<and> moves (jumpTo 0 \<lparr>history = [replicate 9 Null, (replicate 9 Null)[4 := Str ''X'']], currentMove = 1\<rparr>)
     = [(0, ''Go to game start''), (1, ''Go to move #1'')]"
proof -
  let ?g = "\<lparr>history = [replicate 9 Null, (replicate 9 Null)[4 := Str ''X'']], currentMove = 1::nat\<rparr>"
  have h: "0 < length (history ?g)" by simp
  have m: "moves ?g = [(0, ''Go to game start''), (1, ''Go to move #1'')]"
    by (simp add: moves_def description_def decimal.simps upt_rec)
  from h m jumpTo_leaves_history [OF h] show ?thesis
    by (simp add: jumpTo_def)
qed

text \<open>
  C6. \<^verbatim>\<open>xIsNext\<close> holds exactly when the current move is even, so the mark that
  \<^verbatim>\<open>xIsNext ? "X" : "O"\<close> designates is \<^verbatim>\<open>"X"\<close> at an even current move and \<^verbatim>\<open>"O"\<close> at an
  odd one.
\<close>

theorem xIsNext_iff_even:
  "(xIsNext g \<longleftrightarrow> even (currentMove g))
   \<and> Str (if xIsNext g then ''X'' else ''O'') = (if even (currentMove g) then Str ''X'' else Str ''O'')"
  by (auto simp: xIsNext_def)

text \<open>
  C7. On a board of nine cells the status line is \<^verbatim>\<open>Winner: X\<close> or \<^verbatim>\<open>Winner: O\<close> when
  calculateWinner returns that mark, and otherwise \<^verbatim>\<open>Next player: \<close> followed by the
  mark of the turn flag; calculateWinner returns nothing else.
\<close>

theorem status_line:
  assumes "Snapshot squares"
  shows "(calculateWinner squares = Str ''X'' \<longrightarrow> status xn squares = ''Winner: X'')
     \<and> (calculateWinner squares = Str ''O'' \<longrightarrow> status xn squares = ''Winner: O'')
     \<and> (calculateWinner squares = Null \<longrightarrow>
          status xn squares = (if xn then ''Next player: X'' else ''Next player: O''))
     \<and> (calculateWinner squares = Str ''X'' \<or> calculateWinner squares = Str ''O''
          \<or> calculateWinner squares = Null)"
  using calculateWinner_is_cell [OF assms] by (auto simp: status_def is_cell_def)

theorem status_line_witness:
  "Snapshot [Str ''O'', Null, Str ''X'', Null, Str ''X'', Str ''O'', Str ''X'', Null, Null]
   \<and> status False [Str ''O'', Null, Str ''X'', Null, Str ''X'', Str ''O'', Str ''X'', Null, Null]
       = ''Winner: X''
   \<and> Snapshot ((replicate 9 Null)[4 := Str ''X''])
   \<and> calculateWinner ((replicate 9 Null)[4 := Str ''X'']) = Null
   \<and> status False ((replicate 9 Null)[4 := Str ''X'']) = ''Next player: O''"
proof -
  let ?b = "[Str ''O'', Null, Str ''X'', Null, Str ''X'', Str ''O'', Str ''X'', Null, Null]"
  let ?c = "(replicate 9 Null)[4 := Str ''X'']"
  have c: "?c = [Null, Null, Null, Null, Str ''X'', Null, Null, Null, Null]"
    by code_simp
  have s1: "Snapshot ?b"
    by (simp add: Snapshot_def is_cell_def)
  have w1: "calculateWinner ?b = Str ''X''"
    by (simp add: calculateWinner_def lines_def js_get_def)
  have s2: "Snapshot ?c"
    unfolding c by (simp add: Snapshot_def is_cell_def)
  have w2: "calculateWinner ?c = Null"
    unfolding c by (simp add: calculateWinner_def lines_def js_get_def)
  from s1 w1 s2 w2 status_line [OF s1, of False] status_line [OF s2, of False]
  show ?thesis by simp
qed

section \<open>Properties of handleClick\<close>

lemma handleClick_cases:
  "handleClick xn squares onPlay i st =
     (if truthy (js_get squares i) \<or> truthy (calculateWinner squares) then st
      else onPlay (js_set squares i (Str (if xn then ''X'' else ''O''))) st)"
  by (simp add: handleClick_def Let_def)

text \<open>
  C3. On a board of nine cells, a click on a square 0 to 8 that is not empty, or on
  any square once calculateWinner reports a winner (so once a winning triple is
  filled), returns before \<^verbatim>\<open>onPlay\<close>: whatever the callback, the state is the one
  before the click, a callback that records its calls records none, and the Game the
  click happens in keeps its history and current move.
\<close>

theorem handleClick_rejects:
  assumes "Snapshot squares" and "i < 9"
    and "squares ! i \<noteq> Null \<or> calculateWinner squares \<noteq> Null \<or> some_triple_filled squares"
  shows "handleClick xn squares onPlay i st = st
     \<and> handleClick xn squares (\<lambda>nextSquares calls. calls @ [nextSquares]) i [] = []
     \<and> (currentSquares g = Some squares \<longrightarrow> step (Click i) g = Some g)"
proof -
  have "truthy (js_get squares i) \<or> truthy (calculateWinner squares)"
    using assms calculateWinner_result [of squares]
    by (auto simp: Snapshot_get Snapshot_cell truthy_cell calculateWinner_truthy_Snapshot)
  then have "\<And>(onPlay :: jsval list \<Rightarrow> 'b \<Rightarrow> 'b) st. handleClick xn squares onPlay i st = st"
    "\<And>(onPlay :: jsval list \<Rightarrow> jsval list list \<Rightarrow> jsval list list) st. handleClick xn squares onPlay i st = st"
    "\<And>(onPlay :: jsval list \<Rightarrow> jsval list game \<Rightarrow> jsval list game) st b. handleClick b squares onPlay i st = st"
    by (simp_all add: handleClick_cases)
  with assms(2) show ?thesis by simp
qed

theorem handleClick_rejects_witness:
  "Snapshot [Str ''X'', Str ''X'', Str ''X'', Str ''O'', Str ''O'', Null, Null, Null, Null]
   \<and> (5::nat) < 9
   \<and> [Str ''X'', Str ''X'', Str ''X'', Str ''O'', Str ''O'', Null, Null, Null, Null] ! 5 = Null
   \<and> some_triple_filled [Str ''X'', Str ''X'', Str ''X'', Str ''O'', Str ''O'', Null, Null, Null, Null]
   \<and> handleClick False [Str ''X'', Str ''X'', Str ''X'', Str ''O'', Str ''O'', Null, Null, Null, Null]
        (\<lambda>nextSquares calls. calls @ [nextSquares]) 5 [] = []"
proof -
  let ?b = "[Str ''X'', Str ''X'', Str ''X'', Str ''O'', Str ''O'', Null, Null, Null, Null]"
  have s: "Snapshot ?b"
    by (simp add: Snapshot_def is_cell_def)
  have i: "(5::nat) < 9" by simp
  have f: "some_triple_filled ?b"
    by (simp add: some_triple_filled_def filled_def)
  then have h: "?b ! 5 \<noteq> Null \<or> calculateWinner ?b \<noteq> Null \<or> some_triple_filled ?b"
    by blast
  from s i f handleClick_rejects [OF s i h, where xn = False and onPlay = handlePlay
      and st = initial and g = initial]
  show ?thesis
    by simp
qed

lemma js_set_Snapshot:
  assumes "Snapshot squares" and "i < 9"
  shows "js_set squares i v = squares[i := v]"
  using assms by (simp add: js_set_def Snapshot_def)

text \<open>
  C4. On a board of nine cells with square \<open>i\<close> empty and no winner, a click on \<open>i\<close>
  calls \<^verbatim>\<open>onPlay\<close> with a board that holds \<^verbatim>\<open>"X"\<close> at \<open>i\<close> if the turn flag is set and
  \<^verbatim>\<open>"O"\<close> otherwise, and the old board's cells everywhere else. With the arrays held
  in a store, that board is a newly allocated array: every array allocated before
  the click, the clicked board and all boards of the history among them, has the
  contents it had, and handlePlay as the callback keeps the old references and adds
  the new one.
\<close>

theorem handleClick_copies_then_sets:
  assumes "squares < length s" and "Snapshot (s ! squares)" and "i < 9"
    and "s ! squares ! i = Null" and "calculateWinner (s ! squares) = Null"
  shows "\<exists>s'. handleClick_store xn squares onPlay i (s, st) = onPlay (length s) (s', st)
       \<and> length s' = Suc (length s)
       \<and> (\<forall>r<length s. s' ! r = s ! r)
       \<and> Snapshot (s' ! length s)
       \<and> s' ! length s ! i = Str (if xn then ''X'' else ''O'')
       \<and> (\<forall>j<9. j \<noteq> i \<longrightarrow> s' ! length s ! j = s ! squares ! j)
       \<and> handleClick xn (s ! squares) onPlay' i st' = onPlay' (s' ! length s) st'
       \<and> (set (history g) \<subseteq> {..<length s} \<longrightarrow>
            boards s' (snd (handleClick_store xn squares handlePlay_store i (s, g)))
              = handleClick xn (s ! squares) handlePlay i (boards s g))"
proof -
  let ?m = "Str (if xn then ''X'' else ''O'')"
  let ?s' = "(s @ [s ! squares])[length s := (s ! squares)[i := ?m]]"
  have gate: "\<not> (truthy (js_get (s ! squares) i) \<or> truthy (calculateWinner (s ! squares)))"
    using assms by (simp add: Snapshot_get)
  have set: "js_set (s ! squares) i ?m = (s ! squares)[i := ?m]"
    using assms(2,3) by (rule js_set_Snapshot)
  have run: "\<And>cb :: ref \<Rightarrow> store \<times> 'c \<Rightarrow> store \<times> 'c. \<And>x. handleClick_store xn squares cb i (s, x) = cb (length s) (?s', x)"
    using gate set assms(1)
    by (simp add: handleClick_store_def slice_at_def set_at_def nth_append)
  have old: "\<forall>r<length s. ?s' ! r = s ! r"
    by (simp add: nth_append)
  have new: "?s' ! length s = (s ! squares)[i := ?m]"
    by simp
  have snap: "Snapshot (?s' ! length s)"
    unfolding new using assms(2,3)
    by (auto simp: Snapshot_def list_all_length nth_list_update is_cell_def)
  have val: "handleClick xn (s ! squares) onPlay' i st' = onPlay' (?s' ! length s) st'"
    unfolding new using gate set by (simp add: handleClick_cases)
  have abs: "boards ?s' (snd (handleClick_store xn squares handlePlay_store i (s, g)))
              = handleClick xn (s ! squares) handlePlay i (boards s g)"
    if "set (history g) \<subseteq> {..<length s}"
  proof -
    have "\<forall>r \<in> set (take (Suc (currentMove g)) (history g)). r < length s"
      using that by (auto dest: in_set_takeD)
    then have "map ((!) ?s') (take (Suc (currentMove g)) (history g))
         = map ((!) s) (take (Suc (currentMove g)) (history g))"
      by (simp add: nth_append)
    then show ?thesis
      using gate set
      by (simp add: run handleClick_cases handlePlay_store_def handlePlay_def boards_def take_map)
  qed
  have len: "length (s ! squares) = 9"
    using assms(2) by (simp add: Snapshot_def)
  show ?thesis
    apply (rule exI [of _ ?s'])
    using run [of onPlay st] old snap val abs assms(3) len
    by (simp add: nth_append)
qed

theorem handleClick_copies_then_sets_witness:
  "(0::nat) < length [replicate 9 Null]
   \<and> Snapshot ([replicate 9 Null] ! 0)
   \<and> (4::nat) < 9
   \<and> [replicate 9 Null] ! 0 ! 4 = Null
   \<and> calculateWinner ([replicate 9 Null] ! 0) = Null
   \<and> set (history \<lparr>history = [0::nat], currentMove = 0\<rparr>) \<subseteq> {..<length [replicate 9 Null]}
   \<and> handleClick_store True 0 handlePlay_store 4
        ([replicate 9 Null], \<lparr>history = [0], currentMove = 0\<rparr>)
      = ([replicate 9 Null, [Null, Null, Null, Null, Str ''X'', Null, Null, Null, Null]],
         \<lparr>history = [0, 1], currentMove = 1\<rparr>)"
proof -
  let ?s = "[replicate 9 Null]"
  let ?g = "\<lparr>history = [0::nat], currentMove = 0\<rparr>"
  have e: "replicate 9 Null = [Null, Null, Null, Null, Null, Null, Null, Null, Null]"
    by code_simp
  have r: "(0::nat) < length ?s" by simp
  have b: "Snapshot (?s ! 0)"
    by (simp add: Snapshot_def list_all_length is_cell_def)
  have i: "(4::nat) < 9" by simp
  have n: "?s ! 0 ! 4 = Null" by simp
  have w: "calculateWinner (?s ! 0) = Null"
    by (simp add: e calculateWinner_def lines_def js_get_def)
  have h: "set (history ?g) \<subseteq> {..<length ?s}" by simp
  have c: "handleClick_store True 0 handlePlay_store 4 (?s, ?g)
      = ([replicate 9 Null, [Null, Null, Null, Null, Str ''X'', Null, Null, Null, Null]],
         \<lparr>history = [0, 1], currentMove = 1\<rparr>)"
    using handleClick_copies_then_sets [OF r b i n w, where xn = True
        and onPlay = handlePlay_store and st = ?g and g = ?g and onPlay' = handlePlay
        and st' = initial]
    by (simp add: e handleClick_store_def slice_at_def set_at_def js_get_def js_set_def
        calculateWinner_def lines_def handlePlay_store_def handlePlay_def)
  from r b i n w h c show ?thesis by blast
qed

section \<open>Reachable states\<close>

lemma step_Click_cases:
  assumes "step (Click i) g = Some g'"
  obtains squares where "i < 9" "currentSquares g = Some squares"
    "g' = handleClick (xIsNext g) squares handlePlay i g"
  using assms by (auto split: if_splits option.splits)

lemma step_currentMove_in_range:
  assumes "currentMove g < length (history g)" and "step e g = Some g'"
  shows "currentMove g' < length (history g')"
proof (cases e)
  case (Commit nextSquares)
  with assms show ?thesis
    by (auto simp: handlePlay_history handlePlay_currentMove)
next
  case (Click i)
  with assms(2) have "step (Click i) g = Some g'" by simp
  then obtain squares where "g' = handleClick (xIsNext g) squares handlePlay i g"
    by (rule step_Click_cases)
  with assms(1) show ?thesis
    by (auto simp: handleClick_cases handlePlay_history handlePlay_currentMove)
next
  case (Jump k)
  with assms show ?thesis
    by (auto simp: jumpTo_simps split: if_splits)
qed

lemma run_currentMove_in_range:
  "currentMove g < length (history g) \<Longrightarrow> run es g = Some g' \<Longrightarrow>
     currentMove g' < length (history g')"
proof (induction es arbitrary: g)
  case Nil
  then show ?case by simp
next
  case (Cons e es)
  from Cons.prems(2) obtain g1 where s: "step e g = Some g1" and r: "run es g1 = Some g'"
    by (auto split: option.splits)
  from Cons.prems(1) s have "currentMove g1 < length (history g1)"
    by (rule step_currentMove_in_range)
  from this r show ?case by (rule Cons.IH)
qed

text \<open>
  C8. In every state reached from the initial state (one empty board, current move 0)
  by calls of handlePlay with any boards, clicks on squares and jumps to entries of
  the history, the current move is an index of the history, so the board
  \<^verbatim>\<open>history[currentMove]\<close> handed to the Board exists.
\<close>

theorem currentMove_in_range:
  assumes "run es initial = Some g"
  shows "currentMove g < length (history g)
     \<and> currentSquares g = Some (history g ! currentMove g)"
proof -
  have "currentMove initial < length (history initial)"
    by (simp add: initial_def)
  from this assms have "currentMove g < length (history g)"
    by (rule run_currentMove_in_range)
  then show ?thesis
    by (simp add: currentSquares_def)
qed

theorem currentMove_in_range_witness:
  "run [Click 4, Commit [Str ''X''], Jump 1, Click 0, Jump 0] initial
     = Some \<lparr>history = [replicate 9 Null, (replicate 9 Null)[4 := Str ''X''],
                        (replicate 9 Null)[4 := Str ''X'', 0 := Str ''O'']],
             currentMove = 0\<rparr>
   \<and> currentSquares \<lparr>history = [replicate 9 Null, (replicate 9 Null)[4 := Str ''X''],
                        (replicate 9 Null)[4 := Str ''X'', 0 := Str ''O'']],
             currentMove = 0\<rparr> = Some (replicate 9 Null)"
proof -
  have e: "replicate 9 Null = [Null, Null, Null, Null, Null, Null, Null, Null, Null]"
    by code_simp
  have r: "run [Click 4, Commit [Str ''X''], Jump 1, Click 0, Jump 0] initial
     = Some \<lparr>history = [replicate 9 Null, (replicate 9 Null)[4 := Str ''X''],
                        (replicate 9 Null)[4 := Str ''X'', 0 := Str ''O'']],
             currentMove = 0\<rparr>"
    by (simp add: e initial_def currentSquares_def xIsNext_def handleClick_cases js_get_def
        js_set_def calculateWinner_def lines_def handlePlay_def jumpTo_def)
  from r currentMove_in_range [OF r] show ?thesis by simp
qed

section \<open>Histories built by clicks\<close>

lemma length_filter_update:
  "i < length xs \<Longrightarrow> \<not> P (xs ! i) \<Longrightarrow>
     length (filter P (xs[i := v])) = length (filter P xs) + (if P v then 1 else 0)"
proof (induction xs arbitrary: i)
  case Nil
  then show ?case by simp
next
  case (Cons x xs)
  then show ?case by (cases i) auto
qed

lemma marks_update:
  assumes "i < length squares" and "squares ! i = Null"
  shows "marks m (squares[i := Str m']) = marks m squares + (if m = m' then 1 else 0)"
  using assms by (simp add: marks_def length_filter_update)

lemma non_empty_marks:
  "list_all is_cell squares \<Longrightarrow> non_empty squares = marks ''X'' squares + marks ''O'' squares"
  by (induction squares) (auto simp: non_empty_def marks_def is_cell_def)

lemma Snapshot_update:
  assumes "Snapshot squares"
  shows "Snapshot (squares[i := Str (if b then ''X'' else ''O'')])"
proof -
  have "set (squares[i := Str (if b then ''X'' else ''O'')])
          \<subseteq> insert (Str (if b then ''X'' else ''O'')) (set squares)"
    by (rule set_update_subset_insert)
  moreover have "is_cell (Str (if b then ''X'' else ''O''))"
    by (simp add: is_cell_def)
  ultimately show ?thesis
    using assms by (auto simp: Snapshot_def list_all_iff)
qed

lemma turn_count_X: "(k + 1) div 2 + (if even k then 1 else 0) = (Suc k + 1) div (2::nat)"
  by (cases "even k") (auto elim: oddE)

lemma turn_count_O: "k div 2 + (if even k then 0 else 1) = Suc k div (2::nat)"
  by (cases "even k") (auto elim: oddE)

lemma filter_upt_single: "i < n \<Longrightarrow> filter (\<lambda>j. j = i) [0..<n] = [i]"
proof (induction n)
  case 0
  then show ?case by simp
next
  case (Suc n)
  show ?case
  proof (cases "i = n")
    case True
    have "filter (\<lambda>j. j = n) [0..<n] = []"
      by (simp add: filter_empty_conv)
    with True show ?thesis by simp
  next
    case False
    with Suc show ?thesis by simp
  qed
qed

lemma changed_cells_update:
  assumes "length old = 9" and "i < 9" and "v \<noteq> old ! i"
  shows "changed_cells old (old[i := v]) = [i]"
proof -
  have "filter (\<lambda>j. old[i := v] ! j \<noteq> old ! j) [0..<9] = filter (\<lambda>j. j = i) [0..<9]"
    using assms by (intro filter_cong) (auto simp: nth_list_update)
  with assms(2) show ?thesis
    by (simp only: changed_cells_def filter_upt_single)
qed

lemma alternating_take:
  assumes "alternating h"
  shows "alternating (take m h)"
  using assms by (auto simp: alternating_def)

lemma alternating_snoc:
  assumes "alternating h" and "h \<noteq> []" and "i < 9" and "last h ! i = Null"
  shows "alternating (h @ [(last h)[i := Str (if even (length h - 1) then ''X'' else ''O'')]])"
proof -
  define k where "k = length h - 1"
  define new where "new = (h ! k)[i := Str (if even k then ''X'' else ''O'')]"
  from assms(2) have k: "k < length h" "last h = h ! k" "length h = Suc k"
    by (simp_all add: k_def last_conv_nth)
  from assms(1) k(1) have old: "Snapshot (h ! k)" "marks ''X'' (h ! k) = (k + 1) div 2"
    "marks ''O'' (h ! k) = k div 2"
    by (simp_all add: alternating_def)
  from old(1) assms(3) have len: "i < length (h ! k)"
    by (simp add: Snapshot_def)
  from assms(4) k(2) have empty: "h ! k ! i = Null"
    by simp
  have snap: "Snapshot new"
    unfolding new_def using old(1) by (rule Snapshot_update)
  have "marks ''X'' new = marks ''X'' (h ! k) + (if even k then 1 else 0)"
    unfolding new_def using len empty by (simp add: marks_update)
  then have mx: "marks ''X'' new = (Suc k + 1) div 2"
    by (simp only: old(2) turn_count_X)
  have "marks ''O'' new = marks ''O'' (h ! k) + (if even k then 0 else 1)"
    unfolding new_def using len empty by (simp add: marks_update)
  then have mo: "marks ''O'' new = Suc k div 2"
    by (simp only: old(3) turn_count_O)
  have entries: "Snapshot ((h @ [new]) ! n)
           \<and> marks ''X'' ((h @ [new]) ! n) = (n + 1) div 2
           \<and> marks ''O'' ((h @ [new]) ! n) = n div 2"
    if "n < length (h @ [new])" for n
  proof -
    from that consider "n < length h" | "n = Suc k" using k(3) by fastforce
    then show ?thesis
    proof cases
      case 1
      with assms(1) show ?thesis by (simp add: alternating_def nth_append)
    next
      case 2
      with snap mx mo k(3) show ?thesis by (simp add: nth_append)
    qed
  qed
  have moves: "\<exists>i<9. (h @ [new]) ! n ! i = Null
               \<and> (h @ [new]) ! Suc n = ((h @ [new]) ! n)[i := Str (if even n then ''X'' else ''O'')]"
    if "Suc n < length (h @ [new])" for n
  proof -
    from that consider "Suc n < length h" | "n = k" using k(3) by fastforce
    then show ?thesis
    proof cases
      case 1
      with assms(1) show ?thesis by (simp add: alternating_def nth_append)
    next
      case 2
      have "(h @ [new]) ! k = h ! k" "(h @ [new]) ! Suc k = new"
        using k by (simp_all add: nth_append)
      with 2 assms(3) empty show ?thesis
        unfolding new_def by auto
    qed
  qed
  have "alternating (h @ [new])"
    unfolding alternating_def using entries moves by blast
  then show ?thesis
    by (simp add: new_def k(2) k_def)
qed

lemma step_alternating:
  assumes "currentMove g < length (history g)" and "alternating (history g)"
    and "step e g = Some g'" and "\<not> is_Commit e"
  shows "alternating (history g')"
proof (cases e)
  case (Commit nextSquares)
  with assms(4) show ?thesis by simp
next
  case (Jump k)
  with assms(2,3) show ?thesis
    by (auto simp: jumpTo_simps split: if_splits)
next
  case (Click i)
  with assms(3) have "step (Click i) g = Some g'" by simp
  then obtain squares where i: "i < 9" and c: "currentSquares g = Some squares"
    and g': "g' = handleClick (xIsNext g) squares handlePlay i g"
    by (rule step_Click_cases)
  define k where "k = currentMove g"
  define h where "h = take (k + 1) (history g)"
  from c assms(1) have sq: "squares = history g ! k"
    by (simp add: currentSquares_def k_def)
  from assms(1) have "h = take k (history g) @ [history g ! k]"
    by (simp add: h_def k_def take_Suc_conv_app_nth)
  with assms(1) have h: "h \<noteq> []" "length h - 1 = k" "last h = squares"
    by (simp_all add: sq k_def)
  from assms(1,2) have snap: "Snapshot squares"
    by (simp add: alternating_def sq k_def)
  have turn: "xIsNext g = even k"
    by (simp add: xIsNext_def k_def even_iff_mod_2_eq_zero)
  show ?thesis
  proof (cases "truthy (js_get squares i) \<or> truthy (calculateWinner squares)")
    case True
    with g' assms(2) show ?thesis
      by (simp add: handleClick_cases)
  next
    case False
    with snap i have empty: "last h ! i = Null"
      by (simp add: Snapshot_get Snapshot_cell truthy_cell h(3))
    from False g' snap i
    have "history g' = h @ [squares[i := Str (if xIsNext g then ''X'' else ''O'')]]"
      by (simp add: handleClick_cases handlePlay_history js_set_Snapshot h_def k_def)
    also have "\<dots> = h @ [(last h)[i := Str (if even (length h - 1) then ''X'' else ''O'')]]"
      by (simp only: h(2) h(3) turn)
    finally have "history g' = h @ [(last h)[i := Str (if even (length h - 1) then ''X'' else ''O'')]]" .
    moreover have "alternating h"
      unfolding h_def using assms(2) by (rule alternating_take)
    from this h(1) i empty
    have "alternating (h @ [(last h)[i := Str (if even (length h - 1) then ''X'' else ''O'')]])"
      by (rule alternating_snoc)
    ultimately show ?thesis by simp
  qed
qed

lemma run_alternating:
  "currentMove g < length (history g) \<Longrightarrow> alternating (history g) \<Longrightarrow>
   run es g = Some g' \<Longrightarrow> list_all (\<lambda>e. \<not> is_Commit e) es \<Longrightarrow> alternating (history g')"
proof (induction es arbitrary: g)
  case Nil
  then show ?case by simp
next
  case (Cons e es)
  from Cons.prems(3) obtain g1 where s: "step e g = Some g1" and r: "run es g1 = Some g'"
    by (auto split: option.splits)
  from Cons.prems(4) have e: "\<not> is_Commit e" and es: "list_all (\<lambda>e. \<not> is_Commit e) es"
    by simp_all
  from Cons.prems(1) s have "currentMove g1 < length (history g1)"
    by (rule step_currentMove_in_range)
  moreover from Cons.prems(1,2) s e have "alternating (history g1)"
    by (rule step_alternating)
  ultimately show ?case
    using r es by (rule Cons.IH)
qed

lemma alternating_initial: "alternating (history initial)"
  by (simp add: alternating_def initial_def Snapshot_def list_all_length is_cell_def marks_def)

text \<open>
  C10. In every state reached from the initial state by clicks on squares and jumps
  to entries of the history, entry \<open>n\<close> of the history is a board of nine cells with
  exactly \<open>n\<close> non-empty cells, \<open>(n + 1) div 2\<close> of them \<^verbatim>\<open>"X"\<close> and \<open>n div 2\<close> of them
  \<^verbatim>\<open>"O"\<close>, and for \<open>n > 0\<close> it differs from entry \<open>n - 1\<close> in exactly one cell, which was
  empty there and holds a mark here.
\<close>

theorem history_counts_moves:
  assumes "run es initial = Some g" and "list_all (\<lambda>e. \<not> is_Commit e) es"
    and "n < length (history g)"
  shows "Snapshot (history g ! n)
     \<and> non_empty (history g ! n) = n
     \<and> marks ''X'' (history g ! n) = (n + 1) div 2
     \<and> marks ''O'' (history g ! n) = n div 2
     \<and> (0 < n \<longrightarrow>
          (\<exists>i<9. changed_cells (history g ! (n - 1)) (history g ! n) = [i]
              \<and> history g ! (n - 1) ! i = Null
              \<and> history g ! n ! i = Str (if odd n then ''X'' else ''O'')))"
proof -
  have "currentMove initial < length (history initial)"
    by (simp add: initial_def)
  from this alternating_initial assms(1,2) have alt: "alternating (history g)"
    by (rule run_alternating)
  with assms(3) have entry: "Snapshot (history g ! n)"
    "marks ''X'' (history g ! n) = (n + 1) div 2" "marks ''O'' (history g ! n) = n div 2"
    by (simp_all add: alternating_def)
  from entry(1) have "non_empty (history g ! n)
      = marks ''X'' (history g ! n) + marks ''O'' (history g ! n)"
    by (simp add: Snapshot_def non_empty_marks)
  with entry(2,3) have count: "non_empty (history g ! n) = n"
    by simp
  have prev: "\<exists>i<9. changed_cells (history g ! (n - 1)) (history g ! n) = [i]
              \<and> history g ! (n - 1) ! i = Null
              \<and> history g ! n ! i = Str (if odd n then ''X'' else ''O'')"
    if "0 < n"
  proof -
    from that obtain m where m: "n = Suc m"
      by (cases n) auto
    with alt assms(3) obtain i where i: "i < 9" "history g ! m ! i = Null"
      "history g ! n = (history g ! m)[i := Str (if even m then ''X'' else ''O'')]"
      by (auto simp: alternating_def)
    from alt assms(3) m have len: "length (history g ! m) = 9"
      by (simp add: alternating_def Snapshot_def)
    from len i(1,2)
    have "changed_cells (history g ! m) ((history g ! m)[i := Str (if even m then ''X'' else ''O'')]) = [i]"
      by (intro changed_cells_update) simp_all
    moreover from len i(1)
    have "(history g ! m)[i := Str (if even m then ''X'' else ''O'')] ! i
        = Str (if even m then ''X'' else ''O'')"
      by simp
    ultimately show ?thesis
      using i m by auto
  qed
  from entry count prev show ?thesis by blast
qed

theorem history_counts_moves_witness:
  "run [Click 4, Click 0, Jump 1, Click 8, Click 8] initial
     = Some \<lparr>history = [[Null, Null, Null, Null, Null, Null, Null, Null, Null],
                        [Null, Null, Null, Null, Str ''X'', Null, Null, Null, Null],
                        [Null, Null, Null, Null, Str ''X'', Null, Null, Null, Str ''O'']],
             currentMove = 2\<rparr>
   \<and> list_all (\<lambda>e. \<not> is_Commit e) [Click 4, Click 0, Jump 1, Click 8, Click 8]
   \<and> non_empty [Null, Null, Null, Null, Str ''X'', Null, Null, Null, Str ''O''] = 2
   \<and> marks ''X'' [Null, Null, Null, Null, Str ''X'', Null, Null, Null, Str ''O''] = 1
   \<and> marks ''O'' [Null, Null, Null, Null, Str ''X'', Null, Null, Null, Str ''O''] = 1
   \<and> changed_cells [Null, Null, Null, Null, Str ''X'', Null, Null, Null, Null]
        [Null, Null, Null, Null, Str ''X'', Null, Null, Null, Str ''O''] = [8]"
proof -
  let ?g = "\<lparr>history = [[Null, Null, Null, Null, Null, Null, Null, Null, Null],
                        [Null, Null, Null, Null, Str ''X'', Null, Null, Null, Null],
                        [Null, Null, Null, Null, Str ''X'', Null, Null, Null, Str ''O'']],
             currentMove = 2::nat\<rparr>"
  have e: "replicate 9 Null = [Null, Null, Null, Null, Null, Null, Null, Null, Null]"
    by code_simp
  have r: "run [Click 4, Click 0, Jump 1, Click 8, Click 8] initial = Some ?g"
    by (simp add: e initial_def currentSquares_def xIsNext_def handleClick_cases js_get_def
        js_set_def calculateWinner_def lines_def handlePlay_def jumpTo_def)
  have l: "list_all (\<lambda>e. \<not> is_Commit e) [Click 4, Click 0, Jump 1, Click 8, Click 8]"
    by simp
  have n: "2 < length (history ?g)"
    by simp
  have u: "[0..<9] = [0, 1, 2, 3, 4, 5, 6, 7, 8]"
    by code_simp
  have c: "changed_cells [Null, Null, Null, Null, Str ''X'', Null, Null, Null, Null]
        [Null, Null, Null, Null, Str ''X'', Null, Null, Null, Str ''O''] = [8]"
    by (simp add: changed_cells_def u)
  from r l c history_counts_moves [OF r l n] show ?thesis
    by simp
qed

end
